theory Spec2Isabelle
  imports Main "HOL-Library.Sublist"
begin

section \<open>Data model\<close>

text \<open>
  Go strings are byte sequences, so a string is a \<open>char list\<close> of its UTF-8 bytes and
  \<open>length\<close> is Go's \<open>len\<close>.
\<close>

text \<open>
  Modelled from the spec: the types \<open>Browser\<close>, \<open>UserAgent\<close> and \<open>section\<close> are declared in a
  file of the package that is not part of the sources at hand. Their fields are taken from
  section 3 of the specification and carry the names that \<open>bot.go\<close> uses for them. The field
  \<open>bot\<close> is written \<open>bot_flag\<close> and the type \<open>section\<close> is written \<open>Section\<close>, since the plain
  names are taken in Isabelle. Every statement about a \<open>UserAgent\<close> below is made for the
  extensible record, so it also covers any further field the real struct may have.
\<close>

record Browser =
  Name :: string
  Version :: string
  Engine :: string
  EngineVersion :: string

record UserAgent =
  ua :: string
  mozilla :: string
  platform :: string
  os :: string
  localization :: string
  bot_flag :: bool
  undecided :: bool
  browser :: Browser

record Section =
  name :: string
  version :: string
  comment :: "string list"

text \<open>The only run-time failure of \<open>bot.go\<close>: a slice expression whose bounds are out of range.\<close>

datatype panic = SliceBoundsOutOfRange

section \<open>The library functions used by \<open>bot.go\<close>\<close>

subsection \<open>\<open>strings.Index\<close>, \<open>strings.Contains\<close>, \<open>strings.SplitN\<close>\<close>

text \<open>
  \<open>strings.Index(s, substr)\<close>: the byte offset of the first occurrence of \<open>substr\<close> in \<open>s\<close>;
  Go's result \<open>-1\<close> is \<open>None\<close>.
\<close>

primrec Index :: "string \<Rightarrow> string \<Rightarrow> nat option" where
  "Index [] substr = (if substr = [] then Some 0 else None)"
| "Index (x # xs) substr =
     (if prefix substr (x # xs) then Some 0 else map_option Suc (Index xs substr))"

definition Contains :: "string \<Rightarrow> string \<Rightarrow> bool" where
  "Contains s substr = (Index s substr \<noteq> None)"

text \<open>\<open>strings.SplitN(s, "/", 2)\<close>: cut at the first slash, if there is one.\<close>

definition SplitN2 :: "string \<Rightarrow> string list" where
  "SplitN2 s = (case Index s ''/'' of None \<Rightarrow> [s] | Some i \<Rightarrow> [take i s, drop (i + 1) s])"

subsection \<open>\<open>strings.ToLower\<close>\<close>

definition isASCII :: "string \<Rightarrow> bool" where
  "isASCII s = list_all (\<lambda>c. (of_char c :: nat) < 128) s"

definition lowerByte :: "char \<Rightarrow> char" where
  "lowerByte c =
     (let n = (of_char c :: nat) in if 65 \<le> n \<and> n \<le> 90 then char_of (n + 32) else c)"

text \<open>
  \<open>strings.ToLower\<close> maps the bytes \<open>A\<close> to \<open>Z\<close> of a string that is ASCII only, and otherwise
  maps every rune through the Unicode case tables. The tables are no part of this
  development: the second branch is the parameter \<open>unicodeLower\<close>, about which nothing is
  assumed.
\<close>

definition ToLower :: "(string \<Rightarrow> string) \<Rightarrow> string \<Rightarrow> string" where
  "ToLower unicodeLower s = (if isASCII s then map lowerByte s else unicodeLower s)"

subsection \<open>\<open>strings.TrimSpace\<close>\<close>

text \<open>
  The UTF-8 encodings of the runes for which \<open>unicode.IsSpace\<close> holds: tab, line feed,
  vertical tab, form feed, carriage return, space, U+0085, U+00A0, U+1680, U+2000 to U+200A,
  U+2028, U+2029, U+202F, U+205F and U+3000.
\<close>

definition spaceRunes :: "string list" where
  "spaceRunes =
     [ [CHR 0x09], [CHR 0x0A], [CHR 0x0B], [CHR 0x0C], [CHR 0x0D], [CHR 0x20],
      [CHR 0xC2, CHR 0x85], [CHR 0xC2, CHR 0xA0], [CHR 0xE1, CHR 0x9A, CHR 0x80],
      [CHR 0xE2, CHR 0x80, CHR 0x80], [CHR 0xE2, CHR 0x80, CHR 0x81],
      [CHR 0xE2, CHR 0x80, CHR 0x82], [CHR 0xE2, CHR 0x80, CHR 0x83],
      [CHR 0xE2, CHR 0x80, CHR 0x84], [CHR 0xE2, CHR 0x80, CHR 0x85],
      [CHR 0xE2, CHR 0x80, CHR 0x86], [CHR 0xE2, CHR 0x80, CHR 0x87],
      [CHR 0xE2, CHR 0x80, CHR 0x88], [CHR 0xE2, CHR 0x80, CHR 0x89],
      [CHR 0xE2, CHR 0x80, CHR 0x8A], [CHR 0xE2, CHR 0x80, CHR 0xA8],
      [CHR 0xE2, CHR 0x80, CHR 0xA9], [CHR 0xE2, CHR 0x80, CHR 0xAF],
      [CHR 0xE2, CHR 0x81, CHR 0x9F], [CHR 0xE3, CHR 0x80, CHR 0x80] ]"

text \<open>
  Dropping the white space at the front. The fuel bounds the number of runes dropped; with
  the length of the string as fuel it never runs out, since every rune dropped is at least
  one byte long.
\<close>

primrec trimLeftFuel :: "nat \<Rightarrow> string list \<Rightarrow> string \<Rightarrow> string" where
  "trimLeftFuel 0 sp s = s"
| "trimLeftFuel (Suc n) sp s =
     (case List.find (\<lambda>r. prefix r s) sp of
        None \<Rightarrow> s
      | Some r \<Rightarrow> trimLeftFuel n sp (drop (length r) s))"

definition TrimSpace :: "string \<Rightarrow> string" where
  "TrimSpace s =
     (let l = trimLeftFuel (length s) spaceRunes s
      in rev (trimLeftFuel (length l) (map rev spaceRunes) (rev l)))"

subsection \<open>The regular expression \<open>http[s]?://.+\<bslash>.\<bslash>w+\<close>\<close>

text \<open>
  Go's \<open>regexp\<close> finds the leftmost match and, among the matches that start there, the one a
  backtracking matcher finds first. \<open>\<bslash>w\<close> is \<open>[0-9A-Za-z_]\<close>; \<open>.\<close> is any rune but the line
  feed. Every byte the pattern names is ASCII and an ASCII byte is never inside the
  encoding of another rune, so matching runes and matching bytes agree.
\<close>

definition isWordChar :: "char \<Rightarrow> bool" where
  "isWordChar c =
     (let n = (of_char c :: nat)
      in (48 \<le> n \<and> n \<le> 57) \<or> (65 \<le> n \<and> n \<le> 90) \<or> n = 95 \<or> (97 \<le> n \<and> n \<le> 122))"

text \<open>
  \<open>.*\<bslash>.\<bslash>w+\<close> at the front of a string, as the number of bytes matched: the greedy star
  takes one more byte whenever the rest of the pattern still matches after it, and only
  otherwise the literal dot and the longest run of word characters are matched here.
\<close>

primrec matchDotStar :: "string \<Rightarrow> nat option" where
  "matchDotStar [] = None"
| "matchDotStar (c # cs) =
     (if c = CHR 0x0A then None
      else case matchDotStar cs of
             Some n \<Rightarrow> Some (Suc n)
           | None \<Rightarrow>
               if c = CHR ''.'' \<and> takeWhile isWordChar cs \<noteq> []
               then Some (Suc (length (takeWhile isWordChar cs)))
               else None)"

text \<open>\<open>.+\<bslash>.\<bslash>w+\<close> at the front of a string.\<close>

definition matchDotPlus :: "string \<Rightarrow> nat option" where
  "matchDotPlus s =
     (case s of
        [] \<Rightarrow> None
      | c # cs \<Rightarrow> if c = CHR 0x0A then None else map_option Suc (matchDotStar cs))"

text \<open>\<open>://.+\<bslash>.\<bslash>w+\<close> at the front of a string.\<close>

definition matchSlashes :: "string \<Rightarrow> nat option" where
  "matchSlashes s =
     (if prefix ''://'' s then map_option (\<lambda>n. n + 3) (matchDotPlus (drop 3 s)) else None)"

text \<open>The whole pattern at the front of a string; the optional \<open>s\<close> is tried first.\<close>

definition matchHere :: "string \<Rightarrow> nat option" where
  "matchHere s =
     (if prefix ''http'' s then
        (case (if prefix ''s'' (drop 4 s) then matchSlashes (drop 5 s) else None) of
           Some n \<Rightarrow> Some (n + 5)
         | None \<Rightarrow> map_option (\<lambda>n. n + 4) (matchSlashes (drop 4 s)))
      else None)"

text \<open>The leftmost match in a string, as the text matched.\<close>

primrec findMatch :: "string \<Rightarrow> string option" where
  "findMatch [] = None"
| "findMatch (c # cs) =
     (case matchHere (c # cs) of
        Some n \<Rightarrow> Some (take n (c # cs))
      | None \<Rightarrow> findMatch cs)"

text \<open>
  \<open>botFromSiteRegexp.FindStringSubmatch\<close>: \<open>nil\<close> when there is no match, and otherwise the
  text of the leftmost match followed by one entry for each capture group, of which the
  pattern has none.
\<close>

definition FindStringSubmatch :: "string \<Rightarrow> string list" where
  "FindStringSubmatch s = (case findMatch s of None \<Rightarrow> [] | Some m \<Rightarrow> [m])"

section \<open>\<open>bot.go\<close>\<close>

text \<open>
  The list that \<open>LoadBadBotsYAML\<close> returns is fixed once it has been loaded; it is the
  parameter \<open>badBots\<close> of every function that reads it.
\<close>

definition getFromSite :: "string list \<Rightarrow> string" where
  "getFromSite cmt =
     (if length cmt = 0 then ''''
      else
        let idx = (if length cmt < 3 then 0 else if length cmt = 4 then 3 else 2);
            results = FindStringSubmatch (cmt ! idx)
        in if length results = 1
           then (if idx = 0 then results ! 0 else TrimSpace (cmt ! (idx - 1)))
           else '''')"

definition googleOrBingBot :: "'a UserAgent_scheme \<Rightarrow> bool \<times> 'a UserAgent_scheme" where
  "googleOrBingBot p =
     (let p' = (if Contains (ua p) ''Google'' \<or> Contains (ua p) ''bingbot''
                then p\<lparr>platform := '''', undecided := True\<rparr> else p)
      in (undecided p', p'))"

definition iMessagePreview :: "'a UserAgent_scheme \<Rightarrow> bool \<times> 'a UserAgent_scheme" where
  "iMessagePreview p =
     (if \<not> Contains (ua p) ''facebookexternalhit'' then (False, p)
      else if \<not> Contains (ua p) ''Twitterbot'' then (False, p)
      else (True, p\<lparr>bot_flag := True,
                     browser := (browser p)\<lparr>Name := ''iMessage-Preview'', Engine := '''',
                                             EngineVersion := ''''\<rparr>\<rparr>))"

definition setSimple ::
  "string \<Rightarrow> string \<Rightarrow> bool \<Rightarrow> 'a UserAgent_scheme \<Rightarrow> 'a UserAgent_scheme" where
  "setSimple nm ver b p =
     (let p1 = p\<lparr>bot_flag := b\<rparr>;
          p2 = (if \<not> b
                then p1\<lparr>mozilla := '''', browser := (browser p1)\<lparr>Name := nm, Version := ver\<rparr>\<rparr>
                else p1\<lparr>browser := (browser p1)\<lparr>Name := nm, Version := ver\<rparr>\<rparr>)
      in p2\<lparr>browser := (browser p2)\<lparr>Engine := '''', EngineVersion := ''''\<rparr>,
            os := '''', localization := ''''\<rparr>)"

definition fixOther :: "Section list \<Rightarrow> 'a UserAgent_scheme \<Rightarrow> 'a UserAgent_scheme" where
  "fixOther sections p =
     (if length sections > 0
      then p\<lparr>browser := (browser p)\<lparr>Name := name (sections ! 0),
                                      Version := version (sections ! 0)\<rparr>,
             mozilla := ''''\<rparr>
      else p)"

primrec isKnownBadBot :: "(string \<Rightarrow> string) \<Rightarrow> string list \<Rightarrow> string \<Rightarrow> bool" where
  "isKnownBadBot unicodeLower [] s = False"
| "isKnownBadBot unicodeLower (b # badBots) s =
     (if Contains (ToLower unicodeLower s) (ToLower unicodeLower b) then True
      else isKnownBadBot unicodeLower badBots s)"

text \<open>
  The loop \<open>for i, ch := range ver\<close> of \<open>checkBot\<close>: the version ends before the first space
  or semicolon. The loop walks over runes, and a space or a semicolon is a rune wherever
  its byte stands, so the first such rune is the first such byte.
\<close>

definition cutVersion :: "string \<Rightarrow> string" where
  "cutVersion ver = takeWhile (\<lambda>ch. \<not> (ch = CHR '' '' \<or> ch = CHR '';'')) ver"

text \<open>
  The loop over the bad bots inside \<open>checkBot\<close>, for one comment field \<open>c\<close>. It yields the
  values of \<open>matched\<close>, \<open>matchedVersion\<close> and \<open>matchedOriginal\<close> when the loop is left, or the
  panic of the slice expression \<open>c[idx : idx+len(bot)]\<close>.
\<close>

primrec scanBadBots ::
  "(string \<Rightarrow> string) \<Rightarrow> string list \<Rightarrow> string \<Rightarrow> panic + (string \<times> string \<times> string)" where
  "scanBadBots unicodeLower [] c = Inr ('''', '''', '''')"
| "scanBadBots unicodeLower (b # badBots) c =
     (case Index (ToLower unicodeLower c) (ToLower unicodeLower b) of
        None \<Rightarrow> scanBadBots unicodeLower badBots c
      | Some idx \<Rightarrow>
          if length c < idx + length b then Inl SliceBoundsOutOfRange
          else
            let matchedOriginal = take (length b) (drop idx c);
                matched = b;
                lowerC = drop idx c;
                parts = SplitN2 lowerC;
                matchedVersion = (if length parts = 2 then cutVersion (parts ! 1) else '''')
            in Inr (matched, matchedVersion, matchedOriginal))"

text \<open>
  The loop over the comment fields of one section. \<open>Inr (Some p')\<close> is the \<open>return true\<close>
  inside the loop, with the record as \<open>setSimple\<close> left it; \<open>Inr None\<close> is the end of the loop.
\<close>

primrec checkComments ::
  "(string \<Rightarrow> string) \<Rightarrow> string list \<Rightarrow> 'a UserAgent_scheme \<Rightarrow> string list
     \<Rightarrow> panic + 'a UserAgent_scheme option" where
  "checkComments unicodeLower badBots p [] = Inr None"
| "checkComments unicodeLower badBots p (c # cs) =
     (case scanBadBots unicodeLower badBots c of
        Inl e \<Rightarrow> Inl e
      | Inr (matched, matchedVersion, matchedOriginal) \<Rightarrow>
          if matched \<noteq> ''''
          then
            let nameToSet = (if matchedOriginal = '''' then matched else matchedOriginal)
            in Inr (Some (setSimple nameToSet matchedVersion True p))
          else checkComments unicodeLower badBots p cs)"

text \<open>The loop over the sections, the second branch of \<open>checkBot\<close>.\<close>

primrec checkSections ::
  "(string \<Rightarrow> string) \<Rightarrow> string list \<Rightarrow> 'a UserAgent_scheme \<Rightarrow> Section list
     \<Rightarrow> panic + (bool \<times> 'a UserAgent_scheme)" where
  "checkSections unicodeLower badBots p [] = Inr (False, p)"
| "checkSections unicodeLower badBots p (v # vs) =
     (case checkComments unicodeLower badBots p (comment v) of
        Inl e \<Rightarrow> Inl e
      | Inr (Some p') \<Rightarrow> Inr (True, p')
      | Inr None \<Rightarrow>
          let nm = getFromSite (comment v)
          in if nm \<noteq> ''''
             then
               let results = SplitN2 nm;
                   ver = (if length results = 2 then results ! 1 else '''')
               in Inr (True, setSimple (results ! 0) ver True p)
             else if isKnownBadBot unicodeLower badBots (name v)
             then Inr (True, setSimple (name v) (version v) True p)
             else checkSections unicodeLower badBots p vs)"

definition checkBot ::
  "(string \<Rightarrow> string) \<Rightarrow> string list \<Rightarrow> 'a UserAgent_scheme \<Rightarrow> Section list
     \<Rightarrow> panic + (bool \<times> 'a UserAgent_scheme)" where
  "checkBot unicodeLower badBots p sections =
     (if length sections = 1 \<and> name (sections ! 0) \<noteq> ''Mozilla''
      then
        if isKnownBadBot unicodeLower badBots (name (sections ! 0))
        then Inr (True, setSimple (name (sections ! 0)) (version (sections ! 0)) True p)
        else if getFromSite (comment (sections ! 0)) \<noteq> ''''
        then Inr (True, setSimple (name (sections ! 0)) (version (sections ! 0)) True p)
        else Inr (False, p)
      else checkSections unicodeLower badBots p sections)"

section \<open>Example inputs\<close>

definition exampleAgent :: UserAgent where
  "exampleAgent =
     \<lparr>ua = ''facebookexternalhit/1.1 Twitterbot/1.0'', mozilla = ''5.0'', platform = ''iPhone'',
      os = ''iOS'', localization = ''en'', bot_flag = False, undecided = False,
      browser = \<lparr>Name = ''Safari'', Version = ''17.0'', Engine = ''AppleWebKit'',
                 EngineVersion = ''605.1.15''\<rparr>\<rparr>"

definition curlSection :: Section where
  "curlSection = \<lparr>name = ''curl'', version = ''7.68.0'', comment = []\<rparr>"

definition mozillaSection :: Section where
  "mozillaSection =
     \<lparr>name = ''Mozilla'', version = ''5.0'',
      comment = [''compatible'', ''GPTBot/1.0'', '';+https://openai.com/gptbot'']\<rparr>"

section \<open>The URL-shaped pattern, as the specification words it\<close>

text \<open>
  A text is URL-shaped when it is \<open>http\<close> or \<open>https\<close>, then \<open>://\<close>, then one or more characters
  (none of them a line feed, which the dot of the pattern does not match), then a literal
  dot, then one or more word characters. A string contains such a text when it is one of
  its substrings.
\<close>

definition urlShaped :: "string \<Rightarrow> bool" where
  "urlShaped m =
     (\<exists>scheme body w.
        m = scheme @ ''://'' @ body @ ''.'' @ w \<and>
        (scheme = ''http'' \<or> scheme = ''https'') \<and>
        body \<noteq> [] \<and> CHR 0x0A \<notin> set body \<and> w \<noteq> [] \<and> list_all isWordChar w)"

definition containsUrl :: "string \<Rightarrow> bool" where
  "containsUrl s = (\<exists>pre m post. s = pre @ m @ post \<and> urlShaped m)"

text \<open>
  The number of matches of the pattern in a string, counted as \<open>FindAllString\<close> finds them:
  the leftmost match, then the leftmost match after its end, and so on. The first argument
  is the number of bytes still covered by the last match.
\<close>

primrec countMatches :: "nat \<Rightarrow> string \<Rightarrow> nat" where
  "countMatches k [] = 0"
| "countMatches k (c # cs) =
     (if 0 < k then countMatches (k - 1) cs
      else case matchHere (c # cs) of
             Some n \<Rightarrow> Suc (countMatches (n - 1) cs)
           | None \<Rightarrow> countMatches 0 cs)"

text \<open>A field with two URLs on two lines.\<close>

definition twoUrls :: string where
  "twoUrls = ''http://a.b\<newline>http://c.d''"

section \<open>The positional match, as the specification words it\<close>

text \<open>The ASCII lower-cased form of a string: the bytes \<open>A\<close> to \<open>Z\<close> become \<open>a\<close> to \<open>z\<close>.\<close>

definition asciiLower :: "string \<Rightarrow> string" where
  "asciiLower s = map lowerByte s"

text \<open>
  The identifier that the scan stops at: the first one in the list whose ASCII lower-cased
  form occurs in the ASCII lower-cased field.
\<close>

definition specFirstBot :: "string list \<Rightarrow> string \<Rightarrow> string option" where
  "specFirstBot badBots c =
     List.find (\<lambda>b. Contains (asciiLower c) (asciiLower b)) badBots"

text \<open>
  The version read from a text: what follows the first slash, up to the first space or
  semicolon; empty when there is no slash.
\<close>

definition specVersion :: "string \<Rightarrow> string" where
  "specVersion t =
     (if CHR ''/'' \<in> set t
      then takeWhile (\<lambda>ch. ch \<noteq> CHR '' '' \<and> ch \<noteq> CHR '';'')
             (tl (dropWhile (\<lambda>ch. ch \<noteq> CHR ''/'') t))
      else '''')"

text \<open>
  The positional match of a field \<open>c\<close>: no match when no identifier occurs; otherwise, with
  \<open>idx\<close> the offset at which the identifier found occurs first, the name is the text of the
  field at \<open>idx\<close> with the length of the identifier, and the version is read from the text
  right after it.
\<close>

definition specPositional :: "string list \<Rightarrow> string \<Rightarrow> (string \<times> string) option" where
  "specPositional badBots c =
     (case specFirstBot badBots c of
        None \<Rightarrow> None
      | Some b \<Rightarrow>
          (case Index (asciiLower c) (asciiLower b) of
             None \<Rightarrow> None
           | Some idx \<Rightarrow>
               Some (take (length b) (drop idx c), specVersion (drop (idx + length b) c))))"

section \<open>The general case of \<open>checkBot\<close>, as the specification words it\<close>

text \<open>
  The plain containment check: some identifier of the list, ASCII lower-cased, occurs in
  the ASCII lower-cased string.
\<close>

definition specKnownBadBot :: "string list \<Rightarrow> string \<Rightarrow> bool" where
  "specKnownBadBot badBots s = list_ex (\<lambda>b. Contains (asciiLower s) (asciiLower b)) badBots"

text \<open>
  The site reference of a section: the candidate of \<open>getFromSite\<close>, when it is not empty,
  split at its first slash into name and version.
\<close>

definition specSiteMatch :: "string list \<Rightarrow> (string \<times> string) option" where
  "specSiteMatch cmt =
     (if getFromSite cmt = '''' then None
      else Some (takeWhile (\<lambda>ch. ch \<noteq> CHR ''/'') (getFromSite cmt),
                 if CHR ''/'' \<in> set (getFromSite cmt)
                 then tl (dropWhile (\<lambda>ch. ch \<noteq> CHR ''/'') (getFromSite cmt)) else ''''))"

definition specNameMatch :: "string list \<Rightarrow> Section \<Rightarrow> (string \<times> string) option" where
  "specNameMatch badBots v =
     (if specKnownBadBot badBots (name v) then Some (name v, version v) else None)"

text \<open>
  The verdict on one section: the positional match of the first comment field that has
  one; failing that the site reference; failing that the name of the section.
\<close>

definition specSectionVerdict :: "string list \<Rightarrow> Section \<Rightarrow> (string \<times> string) option" where
  "specSectionVerdict badBots v =
     (case List.find (\<lambda>c. specPositional badBots c \<noteq> None) (comment v) of
        Some c \<Rightarrow> specPositional badBots c
      | None \<Rightarrow>
          (case specSiteMatch (comment v) of
             Some r \<Rightarrow> Some r
           | None \<Rightarrow> specNameMatch badBots v))"

text \<open>
  The general case: the verdict of the first section that has one finalizes the record and
  the answer is true; the answer is false, with the record as it was, when no section has
  a verdict.
\<close>

definition specGeneralCase ::
  "string list \<Rightarrow> 'a UserAgent_scheme \<Rightarrow> Section list \<Rightarrow> bool \<times> 'a UserAgent_scheme" where
  "specGeneralCase badBots p sections =
     (case List.find (\<lambda>v. specSectionVerdict badBots v \<noteq> None) sections of
        None \<Rightarrow> (False, p)
      | Some v \<Rightarrow>
          (case specSectionVerdict badBots v of
             None \<Rightarrow> (False, p)
           | Some (nm, ver) \<Rightarrow> (True, setSimple nm ver True p)))"

section \<open>Text that is not ASCII\<close>

text \<open>
  Two letters whose lower case has another length in UTF-8: the Kelvin sign U+212A, three
  bytes, becomes the one byte \<open>k\<close>; the letter U+023A, two bytes, becomes U+2C65, three
  bytes.
\<close>

definition kelvinSign :: string where
  "kelvinSign = [CHR 0xE2, CHR 0x84, CHR 0xAA]"

definition strokeA :: string where
  "strokeA = [CHR 0xC8, CHR 0xBA]"

definition strokeALower :: string where
  "strokeALower = [CHR 0xE2, CHR 0xB1, CHR 0xA5]"

text \<open>
  The Unicode branch of \<open>strings.ToLower\<close> on the strings that are made of ASCII bytes,
  Kelvin signs and letters U+023A: each rune is mapped to its lower case. It stands for
  the library on such strings only and is applied to no other string.
\<close>

fun unicodeLowerSample :: "string \<Rightarrow> string" where
  "unicodeLowerSample [] = []"
| "unicodeLowerSample (c # cs) =
     (if prefix kelvinSign (c # cs) then CHR ''k'' # unicodeLowerSample (drop 2 cs)
      else if prefix strokeA (c # cs) then strokeALower @ unicodeLowerSample (drop 1 cs)
      else lowerByte c # unicodeLowerSample cs)"

text \<open>A field that starts with the Kelvin sign, and a section with a field that starts with U+023A.\<close>

definition kelvinField :: string where
  "kelvinField = kelvinSign @ ''GPTBot/1.1''"

definition strokeSection :: Section where
  "strokeSection =
     \<lparr>name = ''Mozilla'', version = ''5.0'', comment = [''compatible'', strokeA @ ''bot'']\<rparr>"
section \<open>The fuel of \<open>TrimSpace\<close> is enough\<close>

lemma find_SomeD: "List.find P xs = Some x \<Longrightarrow> x \<in> set xs \<and> P x"
  by (induction xs) (auto split: if_splits)

lemma trimLeftFuel_enough:
  "\<forall>r\<in>set sp. r \<noteq> [] \<Longrightarrow> length s \<le> n \<Longrightarrow>
   List.find (\<lambda>r. prefix r (trimLeftFuel n sp s)) sp = None"
proof (induction n arbitrary: s)
  case 0
  then show ?case by (auto simp: find_None_iff)
next
  case (Suc n)
  show ?case
  proof (cases "List.find (\<lambda>r. prefix r s) sp")
    case None
    then show ?thesis by simp
  next
    case (Some r)
    from find_SomeD [OF Some] Suc.prems(1) have "r \<noteq> []" and "prefix r s" by auto
    then have "length (drop (length r) s) < length s"
      by (cases r; cases s) auto
    with Suc.prems(2) have "length (drop (length r) s) \<le> n" by simp
    from Suc.IH [OF Suc.prems(1) this] Some show ?thesis by simp
  qed
qed

lemma TrimSpace_no_space_in_front:
  "List.find (\<lambda>r. prefix r (trimLeftFuel (length s) spaceRunes s)) spaceRunes = None"
  by (rule trimLeftFuel_enough) (simp_all add: spaceRunes_def)


lemma TrimSpace_no_space_at_end:
  "List.find (\<lambda>r. prefix r (trimLeftFuel (length l) (map rev spaceRunes) (rev l)))
     (map rev spaceRunes) = None"
  by (rule trimLeftFuel_enough) (simp_all add: spaceRunes_def)

lemma TrimSpace_example: "TrimSpace '' GPTBot/1.0  '' = ''GPTBot/1.0''"
  by code_simp

section \<open>\<open>setSimple\<close>\<close>

lemma setSimple_eq:
  "setSimple nm ver b p =
     p\<lparr>bot_flag := b, mozilla := (if b then mozilla p else ''''),
       browser := \<lparr>Name = nm, Version = ver, Engine = '''', EngineVersion = ''''\<rparr>,
       os := '''', localization := ''''\<rparr>"
  by (simp add: setSimple_def Let_def)

text \<open>
  C8: \<open>setSimple\<close> sets the name and the version of the browser to its arguments, empties the
  engine, the engine version, the operating system and the localization, and sets the bot
  flag to its argument. It empties \<open>mozilla\<close> when the flag is false and keeps it when the
  flag is true. The raw header, the platform, the undecided flag and any further field
  stay as they were.
\<close>

theorem setSimple_sets_fields:
  "Name (browser (setSimple nm ver b p)) = nm \<and>
   Version (browser (setSimple nm ver b p)) = ver \<and>
   Engine (browser (setSimple nm ver b p)) = '''' \<and>
   EngineVersion (browser (setSimple nm ver b p)) = '''' \<and>
   os (setSimple nm ver b p) = '''' \<and>
   localization (setSimple nm ver b p) = '''' \<and>
   bot_flag (setSimple nm ver b p) = b \<and>
   mozilla (setSimple nm ver b p) = (if b then mozilla p else '''') \<and>
   ua (setSimple nm ver b p) = ua p \<and>
   platform (setSimple nm ver b p) = platform p \<and>
   undecided (setSimple nm ver b p) = undecided p \<and>
   UserAgent.more (setSimple nm ver b p) = UserAgent.more p"
  by (simp add: setSimple_def Let_def)

text \<open>
  C9: \<open>setSimple\<close> is idempotent: a second call with the same arguments leaves the record as
  the first call left it.
\<close>

theorem setSimple_idempotent:
  "setSimple nm ver b (setSimple nm ver b p) = setSimple nm ver b p"
  by (simp add: setSimple_eq)

section \<open>What \<open>checkBot\<close> does to the record\<close>

lemma checkComments_Some:
  "checkComments uL bots p cs = Inr (Some p') \<Longrightarrow> \<exists>nm ver. p' = setSimple nm ver True p"
  by (induction cs) (auto split: sum.splits prod.splits if_splits simp: Let_def)

lemma checkSections_False:
  "checkSections uL bots p vs = Inr (False, p') \<Longrightarrow> p' = p"
  by (induction vs) (auto split: sum.splits option.splits if_splits simp: Let_def)

lemma checkSections_True:
  "checkSections uL bots p vs = Inr (True, p') \<Longrightarrow> \<exists>nm ver. p' = setSimple nm ver True p"
  by (induction vs)
    (auto split: sum.splits option.splits if_splits simp: Let_def dest: checkComments_Some)

lemma checkBot_False: "checkBot uL bots p sections = Inr (False, p') \<Longrightarrow> p' = p"
  by (auto simp: checkBot_def split: if_splits dest: checkSections_False)

lemma checkBot_True:
  "checkBot uL bots p sections = Inr (True, p') \<Longrightarrow> \<exists>nm ver. p' = setSimple nm ver True p"
  by (auto simp: checkBot_def split: if_splits dest: checkSections_True)

lemma getFromSite_Nil: "getFromSite [] = ''''"
  by (simp add: getFromSite_def)

text \<open>
  C7: whenever \<open>checkBot\<close> returns false, the record it returns is the record it was given,
  field by field. In particular, for the single section \<open>curl/7.68.0\<close> without comment and a
  list of bad bots that does not match \<open>curl\<close>, \<open>checkBot\<close> returns false and the record is
  the one it was given.
\<close>

theorem checkBot_false_leaves_record:
  "(checkBot uL bots p sections = Inr (False, p') \<longrightarrow> p' = p) \<and>
   (\<not> isKnownBadBot uL bots ''curl'' \<longrightarrow>
      checkBot uL bots p [\<lparr>name = ''curl'', version = ''7.68.0'', comment = []\<rparr>] = Inr (False, p))"
proof (intro conjI impI)
  assume "checkBot uL bots p sections = Inr (False, p')"
  then show "p' = p" by (rule checkBot_False)
next
  assume "\<not> isKnownBadBot uL bots ''curl''"
  then show "checkBot uL bots p [\<lparr>name = ''curl'', version = ''7.68.0'', comment = []\<rparr>]
      = Inr (False, p)"
    by (simp add: checkBot_def getFromSite_Nil)
qed

theorem checkBot_false_leaves_record_witness:
  "\<not> isKnownBadBot id [''gptbot''] ''curl'' \<and>
   checkBot id [''gptbot''] exampleAgent [\<lparr>name = ''curl'', version = ''7.68.0'', comment = []\<rparr>]
     = Inr (False, exampleAgent)"
proof -
  have h: "\<not> isKnownBadBot id [''gptbot''] ''curl''" by code_simp
  from h checkBot_false_leaves_record [of id "[''gptbot'']" exampleAgent _ exampleAgent]
  show ?thesis by blast
qed

section \<open>The single section that is not \<open>Mozilla\<close>\<close>

text \<open>
  C2, as amended: for a list of exactly one section whose name is not \<open>Mozilla\<close> and passes
  \<open>isKnownBadBot\<close>, \<open>checkBot\<close> returns true and the record is a bot whose browser name is the
  name of the section and whose browser version is the version of the section.
\<close>

theorem single_bad_bot_keeps_version:
  assumes "length sections = 1" and "name (sections ! 0) \<noteq> ''Mozilla''"
    and "isKnownBadBot uL bots (name (sections ! 0))"
  shows "\<exists>p'. checkBot uL bots p sections = Inr (True, p') \<and> bot_flag p' \<and>
           Name (browser p') = name (sections ! 0) \<and>
           Version (browser p') = version (sections ! 0)"
  using assms by (simp add: checkBot_def setSimple_eq)

theorem single_bad_bot_keeps_version_witness:
  "length [curlSection] = 1 \<and> name ([curlSection] ! 0) \<noteq> ''Mozilla'' \<and>
   isKnownBadBot id [''curl''] (name ([curlSection] ! 0)) \<and>
   (\<exists>p'. checkBot id [''curl''] exampleAgent [curlSection] = Inr (True, p') \<and> bot_flag p' \<and>
      Name (browser p') = name ([curlSection] ! 0) \<and>
      Version (browser p') = version ([curlSection] ! 0))"
proof -
  have h1: "length [curlSection] = 1" by simp
  have h2: "name ([curlSection] ! 0) \<noteq> ''Mozilla''" by (simp add: curlSection_def)
  have h3: "isKnownBadBot id [''curl''] (name ([curlSection] ! 0))" by code_simp
  from single_bad_bot_keeps_version [OF h1 h2 h3, of exampleAgent] h1 h2 h3
  show ?thesis by blast
qed

text \<open>
  The claim C2 as it was made asks for the empty version. The section \<open>curl/7.68.0\<close> with the
  bad bot \<open>curl\<close> is finalized with the version \<open>7.68.0\<close>.
\<close>

theorem single_bad_bot_empty_version_counterexample:
  "length [curlSection] = 1 \<and> name ([curlSection] ! 0) \<noteq> ''Mozilla'' \<and>
   isKnownBadBot id [''curl''] (name ([curlSection] ! 0)) \<and>
   checkBot id [''curl''] exampleAgent [curlSection] =
     Inr (True, exampleAgent\<lparr>bot_flag := True,
            browser := \<lparr>Name = ''curl'', Version = ''7.68.0'', Engine = '''', EngineVersion = ''''\<rparr>,
            os := '''', localization := ''''\<rparr>) \<and>
   Version (browser (snd (projr (checkBot id [''curl''] exampleAgent [curlSection])))) \<noteq> ''''"
proof -
  have h3: "isKnownBadBot id [''curl''] ''curl''" by code_simp
  then show ?thesis
    by (simp add: checkBot_def curlSection_def setSimple_eq exampleAgent_def
        del: isKnownBadBot.simps)
qed

section \<open>The fields emptied when a decision is made\<close>

lemma iMessagePreview_example:
  "iMessagePreview exampleAgent =
     (True, exampleAgent\<lparr>bot_flag := True,
        browser := \<lparr>Name = ''iMessage-Preview'', Version = ''17.0'', Engine = '''',
                     EngineVersion = ''''\<rparr>\<rparr>)"
  by (simp add: iMessagePreview_def Contains_def exampleAgent_def)

text \<open>
  C1, as amended: \<open>setSimple\<close>, and with it every path of \<open>checkBot\<close> that returns true, empties
  the engine, the engine version, the operating system and the localization. The detector
  \<open>iMessagePreview\<close>, when it applies, sets the bot flag and the browser name and empties the
  engine and the engine version only; the operating system and the localization stay as
  they were.
\<close>

theorem finalize_clears_engine_and_os:
  "Engine (browser (setSimple nm ver b p)) = '''' \<and>
   EngineVersion (browser (setSimple nm ver b p)) = '''' \<and>
   os (setSimple nm ver b p) = '''' \<and> localization (setSimple nm ver b p) = '''' \<and>
   (checkBot uL bots p sections = Inr (True, p') \<longrightarrow>
      bot_flag p' \<and> Engine (browser p') = '''' \<and> EngineVersion (browser p') = '''' \<and>
      os p' = '''' \<and> localization p' = '''') \<and>
   (iMessagePreview q = (True, q') \<longrightarrow>
      bot_flag q' \<and> Name (browser q') = ''iMessage-Preview'' \<and>
      Engine (browser q') = '''' \<and> EngineVersion (browser q') = '''' \<and>
      os q' = os q \<and> localization q' = localization q)"
proof (intro conjI impI)
  assume "checkBot uL bots p sections = Inr (True, p')"
  then obtain n v where p': "p' = setSimple n v True p" by (blast dest: checkBot_True)
  show "bot_flag p'" "Engine (browser p') = ''''" "EngineVersion (browser p') = ''''"
    "os p' = ''''" "localization p' = ''''"
    by (simp_all add: p' setSimple_eq)
next
  assume a: "iMessagePreview q = (True, q')"
  then have q': "q' = q\<lparr>bot_flag := True,
      browser := (browser q)\<lparr>Name := ''iMessage-Preview'', Engine := '''', EngineVersion := ''''\<rparr>\<rparr>"
    by (auto simp: iMessagePreview_def split: if_splits)
  show "bot_flag q'" "Name (browser q') = ''iMessage-Preview''" "Engine (browser q') = ''''"
    "EngineVersion (browser q') = ''''" "os q' = os q" "localization q' = localization q"
    by (simp_all add: q')
qed (simp_all add: setSimple_eq)

theorem finalize_clears_engine_and_os_witness:
  "checkBot id [''curl''] exampleAgent [curlSection] =
      Inr (True, setSimple ''curl'' ''7.68.0'' True exampleAgent) \<and>
   os (setSimple ''curl'' ''7.68.0'' True exampleAgent) = '''' \<and>
   iMessagePreview exampleAgent = (True, snd (iMessagePreview exampleAgent)) \<and>
   os (snd (iMessagePreview exampleAgent)) = os exampleAgent"
proof -
  have h3: "isKnownBadBot id [''curl''] ''curl''" by code_simp
  have c: "checkBot id [''curl''] exampleAgent [curlSection] =
      Inr (True, setSimple ''curl'' ''7.68.0'' True exampleAgent)"
    using h3 by (simp add: checkBot_def curlSection_def del: isKnownBadBot.simps)
  have i: "iMessagePreview exampleAgent = (True, snd (iMessagePreview exampleAgent))"
    by (simp add: iMessagePreview_example)
  from finalize_clears_engine_and_os [of "''curl''" "''7.68.0''" True exampleAgent id
      "[''curl'']" "[curlSection]" "setSimple ''curl'' ''7.68.0'' True exampleAgent"
      exampleAgent "snd (iMessagePreview exampleAgent)"] c i
  show ?thesis by blast
qed

text \<open>
  The claim C1 as it was made includes \<open>iMessagePreview\<close> among the operations that empty the
  operating system and the localization. On a record with the operating system \<open>iOS\<close> and
  the localization \<open>en\<close> the detector applies and leaves both.
\<close>

theorem iMessagePreview_keeps_os_counterexample:
  "fst (iMessagePreview exampleAgent) = True \<and>
   bot_flag (snd (iMessagePreview exampleAgent)) = True \<and>
   os (snd (iMessagePreview exampleAgent)) = ''iOS'' \<and>
   localization (snd (iMessagePreview exampleAgent)) = ''en''"
  by (simp add: iMessagePreview_example) (simp add: exampleAgent_def)

section \<open>The slice of the comment field stays in range for ASCII text\<close>

lemma Index_bound: "Index s sub = Some i \<Longrightarrow> i + length sub \<le> length s"
proof (induction s arbitrary: i)
  case Nil
  then show ?case by (simp split: if_splits)
next
  case (Cons x xs)
  show ?case
  proof (cases "prefix sub (x # xs)")
    case True
    with Cons.prems have "i = 0" by simp
    moreover from True have "length sub \<le> length (x # xs)" by (rule prefix_length_le)
    ultimately show ?thesis by simp
  next
    case False
    with Cons.prems obtain j where j: "Index xs sub = Some j" "i = Suc j" by auto
    from Cons.IH [OF j(1)] j(2) show ?thesis by simp
  qed
qed

lemma ToLower_ASCII: "isASCII s \<Longrightarrow> ToLower uL s = map lowerByte s"
  by (simp add: ToLower_def)

lemma ToLower_ASCII_length: "isASCII s \<Longrightarrow> length (ToLower uL s) = length s"
  by (simp add: ToLower_ASCII)

lemma ascii_index_bound:
  assumes "isASCII c" and "isASCII b" and "Index (ToLower uL c) (ToLower uL b) = Some idx"
  shows "idx + length b \<le> length c"
  using Index_bound [OF assms(3)] assms(1,2) by (simp add: ToLower_ASCII_length)

lemma scanBadBots_ascii:
  "isASCII c \<Longrightarrow> list_all isASCII bots \<Longrightarrow> \<not> isl (scanBadBots uL bots c)"
proof (induction bots)
  case Nil
  then show ?case by simp
next
  case (Cons b bots)
  show ?case
  proof (cases "Index (ToLower uL c) (ToLower uL b)")
    case None
    with Cons show ?thesis by simp
  next
    case (Some idx)
    from Cons.prems have "isASCII b" by simp
    from ascii_index_bound [OF Cons.prems(1) this Some]
    have "\<not> length c < idx + length b" by simp
    with Some show ?thesis by (simp add: Let_def)
  qed
qed

lemma checkComments_ascii:
  "list_all isASCII cs \<Longrightarrow> list_all isASCII bots \<Longrightarrow> \<not> isl (checkComments uL bots p cs)"
proof (induction cs)
  case Nil
  then show ?case by simp
next
  case (Cons c cs)
  from Cons.prems have "isASCII c" by simp
  from scanBadBots_ascii [OF this Cons.prems(2)]
  have "\<not> isl (scanBadBots uL bots c)" .
  moreover from Cons have "\<not> isl (checkComments uL bots p cs)" by simp
  ultimately show ?case
    by (cases "scanBadBots uL bots c") (auto simp: Let_def split: if_splits)
qed

lemma checkSections_ascii:
  "list_all (\<lambda>v. list_all isASCII (comment v)) vs \<Longrightarrow> list_all isASCII bots \<Longrightarrow>
   \<not> isl (checkSections uL bots p vs)"
proof (induction vs)
  case Nil
  then show ?case by simp
next
  case (Cons v vs)
  from Cons.prems have "list_all isASCII (comment v)" by simp
  from checkComments_ascii [OF this Cons.prems(2)]
  have "\<not> isl (checkComments uL bots p (comment v))" .
  moreover from Cons have "\<not> isl (checkSections uL bots p vs)" by simp
  ultimately show ?case
    by (cases "checkComments uL bots p (comment v)") (auto simp: Let_def split: option.splits if_splits)
qed

lemma checkBot_ascii:
  "list_all (\<lambda>v. list_all isASCII (comment v)) sections \<Longrightarrow> list_all isASCII bots \<Longrightarrow>
   \<not> isl (checkBot uL bots p sections)"
  by (simp add: checkBot_def checkSections_ascii)

lemma not_isl_Inr: "\<not> isl x \<Longrightarrow> \<exists>r. x = Inr r"
  by (cases x) simp_all

text \<open>
  C10: the index found in the lower-cased field is used to slice the field itself. When
  the field and the identifier are ASCII only, the slice \<open>c[idx : idx+len(bot)]\<close> is within
  the field. So with an ASCII field and ASCII identifiers the scan of the identifiers does
  not panic, and with ASCII comment fields and ASCII identifiers \<open>checkBot\<close> returns.
\<close>

theorem ascii_slice_in_range:
  "(isASCII c \<and> isASCII b \<and> Index (ToLower uL c) (ToLower uL b) = Some idx \<longrightarrow>
      idx \<le> idx + length b \<and> idx + length b \<le> length c) \<and>
   (isASCII c \<and> list_all isASCII bots \<longrightarrow> (\<exists>r. scanBadBots uL bots c = Inr r)) \<and>
   (list_all (\<lambda>v. list_all isASCII (comment v)) sections \<and> list_all isASCII bots \<longrightarrow>
      (\<exists>r. checkBot uL bots p sections = Inr r))"
proof (intro conjI impI)
  assume "isASCII c \<and> isASCII b \<and> Index (ToLower uL c) (ToLower uL b) = Some idx"
  then show "idx + length b \<le> length c" by (blast intro: ascii_index_bound)
next
  assume "isASCII c \<and> list_all isASCII bots"
  then have "\<not> isl (scanBadBots uL bots c)" by (simp add: scanBadBots_ascii)
  then show "\<exists>r. scanBadBots uL bots c = Inr r" by (rule not_isl_Inr)
next
  assume "list_all (\<lambda>v. list_all isASCII (comment v)) sections \<and> list_all isASCII bots"
  then have "\<not> isl (checkBot uL bots p sections)" by (simp add: checkBot_ascii)
  then show "\<exists>r. checkBot uL bots p sections = Inr r" by (rule not_isl_Inr)
qed simp

theorem ascii_slice_in_range_witness:
  "isASCII ''GPTBot/1.1'' \<and> isASCII ''bot'' \<and>
   Index (ToLower id ''GPTBot/1.1'') (ToLower id ''bot'') = Some 3 \<and>
   3 + length ''bot'' \<le> length ''GPTBot/1.1'' \<and>
   list_all isASCII [''xbot'', ''bot''] \<and>
   (\<exists>r. scanBadBots id [''xbot'', ''bot''] ''GPTBot/1.1'' = Inr r) \<and>
   list_all (\<lambda>v. list_all isASCII (comment v)) [mozillaSection] \<and>
   (\<exists>r. checkBot id [''xbot'', ''bot''] exampleAgent [mozillaSection] = Inr r)"
proof -
  have h1: "isASCII ''GPTBot/1.1''" by code_simp
  have h2: "isASCII ''bot''" by code_simp
  have h3: "Index (ToLower id ''GPTBot/1.1'') (ToLower id ''bot'') = Some 3" by code_simp
  have h4: "list_all isASCII [''xbot'', ''bot'']" by code_simp
  have h5: "list_all (\<lambda>v. list_all isASCII (comment v)) [mozillaSection]" by code_simp
  from ascii_slice_in_range [of "''GPTBot/1.1''" "''bot''" id 3 "[''xbot'', ''bot'']"
      "[mozillaSection]" exampleAgent] h1 h2 h3 h4 h5
  show ?thesis by simp
qed

section \<open>The matcher finds exactly the URL-shaped texts\<close>

lemma take_length_takeWhile: "take (length (takeWhile P xs)) xs = takeWhile P xs"
  by (induction xs) auto

lemma list_all_takeWhile: "list_all P (takeWhile P xs)"
  by (induction xs) auto

lemma matchDotStar_sound:
  "matchDotStar cs = Some n \<Longrightarrow>
   n \<le> length cs \<and>
   (\<exists>body w. take n cs = body @ ''.'' @ w \<and> CHR 0x0A \<notin> set body \<and> w \<noteq> [] \<and>
      list_all isWordChar w)"
proof (induction cs arbitrary: n)
  case Nil
  then show ?case by simp
next
  case (Cons c cs)
  from Cons.prems have c: "c \<noteq> CHR 0x0A" by (simp split: if_splits)
  show ?case
  proof (cases "matchDotStar cs")
    case (Some k)
    with Cons.prems c have n: "n = Suc k" by simp
    from Cons.IH [OF Some] obtain body w where
      k: "k \<le> length cs" and t: "take k cs = body @ ''.'' @ w" and
      b: "CHR 0x0A \<notin> set body" and w: "w \<noteq> []" "list_all isWordChar w"
      by blast
    from t n have "take n (c # cs) = (c # body) @ ''.'' @ w" by simp
    moreover from b c have "CHR 0x0A \<notin> set (c # body)" by simp
    moreover from k n have "n \<le> length (c # cs)" by simp
    ultimately show ?thesis using w by blast
  next
    case None
    with Cons.prems c have d: "c = CHR ''.''" and ne: "takeWhile isWordChar cs \<noteq> []"
      and n: "n = Suc (length (takeWhile isWordChar cs))"
      by (simp_all split: if_splits)
    have "take n (c # cs) = [] @ ''.'' @ takeWhile isWordChar cs"
      using n d by (simp add: take_length_takeWhile)
    moreover have "n \<le> length (c # cs)" using n by (simp add: length_takeWhile_le)
    ultimately show ?thesis using ne list_all_takeWhile [of isWordChar cs]
      by (metis empty_iff empty_set)
  qed
qed

lemma matchDotStar_complete:
  "CHR 0x0A \<notin> set body \<Longrightarrow> w \<noteq> [] \<Longrightarrow> list_all isWordChar w \<Longrightarrow>
   matchDotStar (body @ ''.'' @ w @ post) \<noteq> None"
proof (induction body)
  case Nil
  from Nil.prems(2,3) have "takeWhile isWordChar (w @ post) \<noteq> []"
    by (cases w) simp_all
  then show ?case by (simp split: option.splits)
next
  case (Cons b body)
  then show ?case by (auto split: option.splits)
qed

lemma matchDotPlus_sound:
  assumes "matchDotPlus s = Some n"
  shows "n \<le> length s \<and>
   (\<exists>body w. take n s = body @ ''.'' @ w \<and> body \<noteq> [] \<and> CHR 0x0A \<notin> set body \<and>
      w \<noteq> [] \<and> list_all isWordChar w)"
proof (cases s)
  case Nil
  with assms show ?thesis by (simp add: matchDotPlus_def)
next
  case (Cons c cs)
  with assms obtain k where c: "c \<noteq> CHR 0x0A" and k: "matchDotStar cs = Some k" "n = Suc k"
    by (auto simp: matchDotPlus_def split: if_splits)
  from matchDotStar_sound [OF k(1)] obtain body w where
    kl: "k \<le> length cs" and t: "take k cs = body @ ''.'' @ w" and
    b: "CHR 0x0A \<notin> set body" and w: "w \<noteq> []" "list_all isWordChar w"
    by blast
  from t k(2) Cons have "take n s = (c # body) @ ''.'' @ w" by simp
  moreover from b c have "CHR 0x0A \<notin> set (c # body)" by simp
  moreover have "c # body \<noteq> []" by simp
  moreover from kl k(2) Cons have "n \<le> length s" by simp
  ultimately show ?thesis using w by blast
qed

lemma matchDotPlus_complete:
  assumes "body \<noteq> []" and "CHR 0x0A \<notin> set body" and "w \<noteq> []" and "list_all isWordChar w"
  shows "matchDotPlus (body @ ''.'' @ w @ post) \<noteq> None"
proof (cases body)
  case Nil
  with assms(1) show ?thesis by simp
next
  case (Cons b bs)
  with assms(2) have "CHR 0x0A \<notin> set bs" and "b \<noteq> CHR 0x0A" by auto
  from matchDotStar_complete [OF this(1) assms(3,4), of post] this(2) Cons
  show ?thesis by (auto simp: matchDotPlus_def)
qed

lemma matchSlashes_sound:
  assumes "matchSlashes s = Some n"
  shows "n \<le> length s \<and>
   (\<exists>body w. take n s = ''://'' @ body @ ''.'' @ w \<and> body \<noteq> [] \<and> CHR 0x0A \<notin> set body \<and>
      w \<noteq> [] \<and> list_all isWordChar w)"
proof -
  from assms obtain k where p: "prefix ''://'' s" and k: "matchDotPlus (drop 3 s) = Some k"
    and n: "n = k + 3"
    by (auto simp: matchSlashes_def split: if_splits)
  from p obtain r where s: "s = ''://'' @ r" by (auto simp: prefix_def)
  from matchDotPlus_sound [OF k] s obtain body w where
    kl: "k \<le> length r" and t: "take k r = body @ ''.'' @ w" and
    b: "body \<noteq> []" "CHR 0x0A \<notin> set body" and w: "w \<noteq> []" "list_all isWordChar w"
    by auto
  from t s n have "take n s = ''://'' @ body @ ''.'' @ w"
    by (simp add: eval_nat_numeral)
  moreover from kl s n have "n \<le> length s" by simp
  ultimately show ?thesis using b w by blast
qed

lemma matchSlashes_complete:
  assumes "body \<noteq> []" and "CHR 0x0A \<notin> set body" and "w \<noteq> []" and "list_all isWordChar w"
  shows "matchSlashes (''://'' @ body @ ''.'' @ w @ post) \<noteq> None"
  using matchDotPlus_complete [OF assms, of post] by (simp add: matchSlashes_def)

lemma matchHere_sound:
  assumes "matchHere s = Some n"
  shows "n \<le> length s \<and> urlShaped (take n s)"
proof -
  from assms have p: "prefix ''http'' s" by (simp add: matchHere_def split: if_splits)
  then obtain r where s: "s = ''http'' @ r" by (auto simp: prefix_def)
  show ?thesis
  proof (cases "if prefix ''s'' (drop 4 s) then matchSlashes (drop 5 s) else None")
    case (Some k)
    then have ps: "prefix ''s'' r" and k: "matchSlashes (drop 5 s) = Some k"
      using s by (auto split: if_splits)
    from ps obtain r' where r: "r = ''s'' @ r'" by (auto simp: prefix_def)
    from assms p Some have n: "n = k + 5" by (simp add: matchHere_def)
    from matchSlashes_sound [OF k] s r obtain body w where
      kl: "k \<le> length r'" and t: "take k r' = ''://'' @ body @ ''.'' @ w" and
      b: "body \<noteq> []" "CHR 0x0A \<notin> set body" and w: "w \<noteq> []" "list_all isWordChar w"
      by auto
    from t s r n have "take n s = ''https'' @ ''://'' @ body @ ''.'' @ w"
      by (simp add: eval_nat_numeral)
    with b w have "urlShaped (take n s)" unfolding urlShaped_def by blast
    moreover from kl s r n have "n \<le> length s" by simp
    ultimately show ?thesis by simp
  next
    case None
    with assms p obtain k where k: "matchSlashes (drop 4 s) = Some k" and n: "n = k + 4"
      by (auto simp: matchHere_def)
    from matchSlashes_sound [OF k] s obtain body w where
      kl: "k \<le> length r" and t: "take k r = ''://'' @ body @ ''.'' @ w" and
      b: "body \<noteq> []" "CHR 0x0A \<notin> set body" and w: "w \<noteq> []" "list_all isWordChar w"
      by auto
    from t s n have "take n s = ''http'' @ ''://'' @ body @ ''.'' @ w"
      by (simp add: eval_nat_numeral)
    with b w have "urlShaped (take n s)" unfolding urlShaped_def by blast
    moreover from kl s n have "n \<le> length s" by simp
    ultimately show ?thesis by simp
  qed
qed

lemma matchHere_complete:
  assumes "urlShaped m"
  shows "matchHere (m @ post) \<noteq> None"
proof -
  from assms obtain scheme body w where
    m: "m = scheme @ ''://'' @ body @ ''.'' @ w" and
    sc: "scheme = ''http'' \<or> scheme = ''https''" and
    b: "body \<noteq> []" "CHR 0x0A \<notin> set body" and w: "w \<noteq> []" "list_all isWordChar w"
    unfolding urlShaped_def by blast
  from matchSlashes_complete [OF b w, of post]
  obtain k where k: "matchSlashes (''://'' @ body @ ''.'' @ w @ post) = Some k" by auto
  from sc show ?thesis
  proof
    assume "scheme = ''http''"
    with m k show ?thesis by (simp add: matchHere_def)
  next
    assume "scheme = ''https''"
    with m k show ?thesis by (simp add: matchHere_def)
  qed
qed

lemma findMatch_sound:
  "findMatch s = Some m \<Longrightarrow> urlShaped m \<and> (\<exists>pre post. s = pre @ m @ post)"
proof (induction s)
  case Nil
  then show ?case by simp
next
  case (Cons c cs)
  show ?case
  proof (cases "matchHere (c # cs)")
    case None
    with Cons.prems have "findMatch cs = Some m" by simp
    from Cons.IH [OF this] obtain pre post where "urlShaped m" "cs = pre @ m @ post" by blast
    then have "c # cs = (c # pre) @ m @ post" by simp
    with \<open>urlShaped m\<close> show ?thesis by blast
  next
    case (Some n)
    with Cons.prems have m: "m = take n (c # cs)" by simp
    from matchHere_sound [OF Some] m have "urlShaped m" by simp
    moreover have "c # cs = [] @ m @ drop n (c # cs)" using m by simp
    ultimately show ?thesis by blast
  qed
qed

lemma findMatch_complete: "urlShaped m \<Longrightarrow> findMatch (pre @ m @ post) \<noteq> None"
proof (induction pre)
  case Nil
  from matchHere_complete [OF Nil, of post] obtain n where n: "matchHere (m @ post) = Some n"
    by auto
  then have "m @ post \<noteq> []" by (auto simp: matchHere_def)
  then obtain c cs where "m @ post = c # cs" by (cases "m @ post") auto
  with n show ?case by simp
next
  case (Cons c pre)
  then show ?case by (simp split: option.splits)
qed

lemma findMatch_containsUrl: "findMatch s \<noteq> None \<longleftrightarrow> containsUrl s"
proof
  assume "findMatch s \<noteq> None"
  then obtain m where "findMatch s = Some m" by auto
  from findMatch_sound [OF this] show "containsUrl s" unfolding containsUrl_def by blast
next
  assume "containsUrl s"
  then obtain pre m post where "s = pre @ m @ post" "urlShaped m"
    unfolding containsUrl_def by blast
  then show "findMatch s \<noteq> None" by (simp add: findMatch_complete)
qed

lemma FindStringSubmatch_length:
  "length (FindStringSubmatch s) = (if containsUrl s then 1 else 0)"
  using findMatch_containsUrl [of s] by (auto simp: FindStringSubmatch_def split: option.splits)

lemma countMatches_findMatch: "0 < countMatches 0 s \<longleftrightarrow> findMatch s \<noteq> None"
  by (induction s) (auto split: option.splits)

section \<open>\<open>getFromSite\<close>\<close>

lemma getFromSite_index_in_range:
  "cmt \<noteq> [] \<Longrightarrow>
   (if length cmt < 3 then 0 else if length cmt = 4 then 3 else 2) < length cmt"
  by (cases cmt) auto

lemma getFromSite_no_match:
  assumes "cmt \<noteq> []"
    and "\<not> containsUrl (cmt ! (if length cmt < 3 then 0 else if length cmt = 4 then 3 else 2))"
  shows "getFromSite cmt = ''''"
  using assms by (simp add: getFromSite_def Let_def FindStringSubmatch_length)

lemma getFromSite_match:
  assumes "cmt \<noteq> []"
    and "findMatch (cmt ! (if length cmt < 3 then 0 else if length cmt = 4 then 3 else 2)) = Some m"
  shows "getFromSite cmt =
     (if length cmt < 3 then m
      else TrimSpace (cmt ! ((if length cmt = 4 then 3 else 2) - 1)))"
  using assms by (auto simp: getFromSite_def Let_def FindStringSubmatch_def)

lemma urlShaped_not_empty: "urlShaped m \<Longrightarrow> m \<noteq> ''''"
  by (auto simp: urlShaped_def)

text \<open>
  C6: the empty comment gives the empty string. For a comment that is not empty, let \<open>i\<close> be
  0 when there are fewer than three fields, 3 when there are exactly four and 2 otherwise.
  Field \<open>i\<close> exists and decides the result: when it contains no URL-shaped text the result
  is empty, for this comment and for every comment of the same length with the same field
  \<open>i\<close>; when the pattern matches in it, the result is the text matched if \<open>i\<close> is 0 and the
  trimmed field \<open>i - 1\<close> otherwise.
\<close>

theorem getFromSite_index_selection:
  "getFromSite [] = '''' \<and>
   (cmt \<noteq> [] \<longrightarrow>
      (let i = (if length cmt < 3 then 0 else if length cmt = 4 then 3 else 2 :: nat)
       in i < length cmt \<and>
          (\<not> containsUrl (cmt ! i) \<longrightarrow>
             getFromSite cmt = '''' \<and>
             (\<forall>cmt'. length cmt' = length cmt \<and> cmt' ! i = cmt ! i \<longrightarrow> getFromSite cmt' = '''')) \<and>
          (\<forall>m. findMatch (cmt ! i) = Some m \<longrightarrow>
             getFromSite cmt = (if i = 0 then m else TrimSpace (cmt ! (i - 1))))))"
proof (intro conjI impI)
  show "getFromSite [] = ''''" by (simp add: getFromSite_def)
next
  assume ne: "cmt \<noteq> []"
  define i :: nat where "i = (if length cmt < 3 then 0 else if length cmt = 4 then 3 else 2)"
  have r: "i < length cmt" unfolding i_def using ne by (rule getFromSite_index_in_range)
  have a: "getFromSite cmt' = ''''"
    if "\<not> containsUrl (cmt ! i)" and "length cmt' = length cmt" and "cmt' ! i = cmt ! i"
    for cmt'
  proof -
    from that(2) ne have "cmt' \<noteq> []" by auto
    moreover have "(if length cmt' < 3 then 0 else if length cmt' = 4 then 3 else 2) = i"
      using that(2) by (simp add: i_def)
    with that(1,3) have
      "\<not> containsUrl (cmt' ! (if length cmt' < 3 then 0 else if length cmt' = 4 then 3 else 2))"
      by simp
    ultimately show ?thesis by (rule getFromSite_no_match)
  qed
  have b: "getFromSite cmt = (if i = 0 then m else TrimSpace (cmt ! (i - 1)))"
    if "findMatch (cmt ! i) = Some m" for m
    using getFromSite_match [OF ne, of m] that unfolding i_def by (auto split: if_splits)
  from r a b
  have "i < length cmt \<and>
          (\<not> containsUrl (cmt ! i) \<longrightarrow>
             getFromSite cmt = '''' \<and>
             (\<forall>cmt'. length cmt' = length cmt \<and> cmt' ! i = cmt ! i \<longrightarrow> getFromSite cmt' = '''')) \<and>
          (\<forall>m. findMatch (cmt ! i) = Some m \<longrightarrow>
             getFromSite cmt = (if i = 0 then m else TrimSpace (cmt ! (i - 1))))"
    by blast
  then show "let i = (if length cmt < 3 then 0 else if length cmt = 4 then 3 else 2 :: nat)
       in i < length cmt \<and>
          (\<not> containsUrl (cmt ! i) \<longrightarrow>
             getFromSite cmt = '''' \<and>
             (\<forall>cmt'. length cmt' = length cmt \<and> cmt' ! i = cmt ! i \<longrightarrow> getFromSite cmt' = '''')) \<and>
          (\<forall>m. findMatch (cmt ! i) = Some m \<longrightarrow>
             getFromSite cmt = (if i = 0 then m else TrimSpace (cmt ! (i - 1))))"
    unfolding i_def Let_def .
qed

lemma not_containsUrl_compatible: "\<not> containsUrl ''compatible''"
proof -
  have "findMatch ''compatible'' = None" by code_simp
  with findMatch_containsUrl [of "''compatible''"] show ?thesis by simp
qed

theorem getFromSite_index_selection_witness:
  "[''GPTBot/1.0'', ''compatible''] \<noteq> [] \<and>
   \<not> containsUrl ([''GPTBot/1.0'', ''compatible''] ! 0) \<and>
   getFromSite [''GPTBot/1.0'', ''compatible''] = '''' \<and>
   getFromSite [''GPTBot/1.0'', ''+http://x.yz''] = '''' \<and>
   findMatch (comment mozillaSection ! 2) = Some ''https://openai.com'' \<and>
   getFromSite (comment mozillaSection) = TrimSpace (comment mozillaSection ! 1)"
proof -
  have n: "\<not> containsUrl ([''GPTBot/1.0'', ''compatible''] ! 0)"
  proof -
    have "findMatch ''GPTBot/1.0'' = None" by code_simp
    with findMatch_containsUrl [of "''GPTBot/1.0''"] show ?thesis by simp
  qed
  have m: "findMatch (comment mozillaSection ! 2) = Some ''https://openai.com''" by code_simp
  from getFromSite_index_selection [of "[''GPTBot/1.0'', ''compatible'']"] n
  have 1: "getFromSite [''GPTBot/1.0'', ''compatible''] = ''''"
    and 2: "getFromSite [''GPTBot/1.0'', ''+http://x.yz''] = ''''"
    by (simp_all add: Let_def)
  from getFromSite_index_selection [of "comment mozillaSection"] m
  have 3: "getFromSite (comment mozillaSection) = TrimSpace (comment mozillaSection ! 1)"
    by (simp add: Let_def mozillaSection_def)
  from n m 1 2 3 show ?thesis by simp
qed

text \<open>
  C5, as amended: \<open>getFromSite\<close> returns a result that is not empty only when the field at
  the chosen index contains a URL-shaped text, that is when the pattern matches there at
  least once; when the pattern does not match there the result is empty. The number of
  matches beyond the first plays no part: whenever the chosen index is 0 and the pattern
  matches, the result is the leftmost match, which is not empty.
\<close>

theorem getFromSite_nonempty_needs_match:
  "(getFromSite cmt \<noteq> '''' \<longrightarrow>
      cmt \<noteq> [] \<and>
      containsUrl (cmt ! (if length cmt < 3 then 0 else if length cmt = 4 then 3 else 2)) \<and>
      0 < countMatches 0 (cmt ! (if length cmt < 3 then 0 else if length cmt = 4 then 3 else 2))) \<and>
   (cmt \<noteq> [] \<and>
    \<not> containsUrl (cmt ! (if length cmt < 3 then 0 else if length cmt = 4 then 3 else 2)) \<longrightarrow>
      getFromSite cmt = '''') \<and>
   (cmt \<noteq> [] \<and> length cmt < 3 \<and> containsUrl (cmt ! 0) \<longrightarrow>
      getFromSite cmt \<noteq> '''' \<and> findMatch (cmt ! 0) = Some (getFromSite cmt))"
proof (intro conjI impI)
  assume g: "getFromSite cmt \<noteq> ''''"
  then show ne: "cmt \<noteq> []" by (auto simp: getFromSite_def)
  from g ne show c: "containsUrl (cmt ! (if length cmt < 3 then 0 else if length cmt = 4 then 3 else 2))"
    using getFromSite_no_match [of cmt] by blast
  then show "0 < countMatches 0 (cmt ! (if length cmt < 3 then 0 else if length cmt = 4 then 3 else 2))"
    by (simp only: countMatches_findMatch findMatch_containsUrl)
next
  assume "cmt \<noteq> [] \<and>
    \<not> containsUrl (cmt ! (if length cmt < 3 then 0 else if length cmt = 4 then 3 else 2))"
  then show "getFromSite cmt = ''''" by (simp add: getFromSite_no_match)
next
  assume a: "cmt \<noteq> [] \<and> length cmt < 3 \<and> containsUrl (cmt ! 0)"
  then obtain m where m: "findMatch (cmt ! 0) = Some m"
    using findMatch_containsUrl [of "cmt ! 0"] by auto
  with a have e: "getFromSite cmt = m" using getFromSite_match [of cmt m] by simp
  from findMatch_sound [OF m] have "m \<noteq> ''''" by (simp add: urlShaped_not_empty)
  with e show "getFromSite cmt \<noteq> ''''" by simp
  from e m show "findMatch (cmt ! 0) = Some (getFromSite cmt)" by simp
qed

theorem getFromSite_nonempty_needs_match_witness:
  "getFromSite [twoUrls] \<noteq> '''' \<and> containsUrl ([twoUrls] ! 0) \<and>
   0 < countMatches 0 ([twoUrls] ! 0) \<and>
   [''compatible''] \<noteq> [] \<and> \<not> containsUrl ([''compatible''] ! 0) \<and>
   getFromSite [''compatible''] = ''''"
proof -
  have g: "getFromSite [twoUrls] \<noteq> ''''" by code_simp
  from getFromSite_nonempty_needs_match [of "[twoUrls]"] g
  have 1: "containsUrl ([twoUrls] ! 0) \<and> 0 < countMatches 0 ([twoUrls] ! 0)" by simp
  from getFromSite_nonempty_needs_match [of "[''compatible'']"] not_containsUrl_compatible
  have 2: "getFromSite [''compatible''] = ''''" by simp
  from g 1 2 not_containsUrl_compatible show ?thesis by simp
qed

text \<open>
  The claim C5 as it was made asks for the empty result when the pattern matches more than
  once. The field \<open>twoUrls\<close> has two matches, and the result is the first of them.
\<close>

theorem getFromSite_two_matches_counterexample:
  "countMatches 0 twoUrls = 2 \<and>
   urlShaped (take 10 twoUrls) \<and> urlShaped (drop 11 twoUrls) \<and>
   getFromSite [twoUrls] = ''http://a.b'' \<and>
   getFromSite [twoUrls] \<noteq> ''''"
proof -
  have 1: "countMatches 0 twoUrls = 2" by code_simp
  have 2: "getFromSite [twoUrls] = ''http://a.b''" by code_simp
  have "matchHere (take 10 twoUrls) = Some 10" by code_simp
  from matchHere_sound [OF this] have 3: "urlShaped (take 10 twoUrls)" by simp
  have "matchHere (drop 11 twoUrls) = Some 10" by code_simp
  from matchHere_sound [OF this] have 4: "urlShaped (drop 11 twoUrls)"
    by (simp add: twoUrls_def)
  from 1 2 3 4 show ?thesis by simp
qed

section \<open>The positional match of a comment field\<close>

lemma Index_char_None: "Index t [x] = None \<longleftrightarrow> x \<notin> set t"
  by (induction t) auto

lemma Index_char_Some:
  "Index t [x] = Some i \<Longrightarrow>
   take i t = takeWhile (\<lambda>ch. ch \<noteq> x) t \<and> drop (i + 1) t = tl (dropWhile (\<lambda>ch. ch \<noteq> x) t)"
proof (induction t arbitrary: i)
  case Nil
  then show ?case by simp
next
  case (Cons a t)
  show ?case
  proof (cases "a = x")
    case True
    with Cons.prems show ?thesis by simp
  next
    case False
    with Cons.prems obtain j where j: "Index t [x] = Some j" "i = Suc j" by auto
    from Cons.IH [OF j(1)] j(2) False show ?thesis by simp
  qed
qed

lemma version_of_parts:
  "(if length (SplitN2 t) = 2 then cutVersion (SplitN2 t ! 1) else '''') = specVersion t"
proof (cases "Index t ''/''")
  case None
  then have "CHR ''/'' \<notin> set t" by (simp add: Index_char_None)
  with None show ?thesis by (simp add: SplitN2_def specVersion_def)
next
  case (Some i)
  then have "CHR ''/'' \<in> set t" using Index_char_None [of t "CHR ''/''"] by auto
  moreover from Index_char_Some [OF Some]
  have "drop (i + 1) t = tl (dropWhile (\<lambda>ch. ch \<noteq> CHR ''/'') t)" by simp
  ultimately show ?thesis using Some
    by (simp add: SplitN2_def specVersion_def cutVersion_def)
qed

lemma specVersion_skip: "CHR ''/'' \<notin> set m \<Longrightarrow> specVersion (m @ r) = specVersion r"
  by (simp add: specVersion_def dropWhile_append)

lemma Index_slice: "Index s sub = Some i \<Longrightarrow> take (length sub) (drop i s) = sub"
proof (induction s arbitrary: i)
  case Nil
  then show ?case by (simp split: if_splits)
next
  case (Cons x xs)
  show ?case
  proof (cases "prefix sub (x # xs)")
    case True
    with Cons.prems have "i = 0" by simp
    moreover from True obtain r where "x # xs = sub @ r" by (auto simp: prefix_def)
    ultimately show ?thesis by simp
  next
    case False
    with Cons.prems obtain j where j: "Index xs sub = Some j" "i = Suc j" by auto
    from Cons.IH [OF j(1)] j(2) show ?thesis by simp
  qed
qed

lemma lowerByte_slash: "lowerByte x = CHR ''/'' \<longleftrightarrow> x = CHR ''/''"
proof (cases "65 \<le> (of_char x :: nat) \<and> (of_char x :: nat) \<le> 90")
  case True
  then have l: "lowerByte x = char_of ((of_char x :: nat) + 32)"
    by (simp add: lowerByte_def Let_def)
  have "(of_char (char_of ((of_char x :: nat) + 32)) :: nat) = of_char x + 32"
    using True by (simp add: of_char_of)
  with l have o: "(of_char (lowerByte x) :: nat) = of_char x + 32" by simp
  have "lowerByte x \<noteq> CHR ''/''"
  proof
    assume "lowerByte x = CHR ''/''"
    with o have "(of_char (CHR ''/'') :: nat) = of_char x + 32" by simp
    with True show False by simp
  qed
  moreover have "x \<noteq> CHR ''/''"
  proof
    assume "x = CHR ''/''"
    with True show False by simp
  qed
  ultimately show ?thesis by simp
next
  case False
  then have "lowerByte x = x" by (auto simp: lowerByte_def Let_def)
  then show ?thesis by simp
qed

lemma slash_image: "CHR ''/'' \<in> lowerByte ` S \<longleftrightarrow> CHR ''/'' \<in> S"
proof
  assume "CHR ''/'' \<in> lowerByte ` S"
  then obtain x where x: "x \<in> S" "lowerByte x = CHR ''/''" by (metis imageE)
  from x(2) have "x = CHR ''/''" by (simp only: lowerByte_slash)
  with x(1) show "CHR ''/'' \<in> S" by simp
next
  assume s: "CHR ''/'' \<in> S"
  have "lowerByte (CHR ''/'') = CHR ''/''" by (simp only: lowerByte_slash)
  with s show "CHR ''/'' \<in> lowerByte ` S" by (metis imageI)
qed

lemma slash_in_match:
  assumes "Index (asciiLower c) (asciiLower b) = Some idx"
  shows "CHR ''/'' \<in> set (take (length b) (drop idx c)) \<longleftrightarrow> CHR ''/'' \<in> set b"
proof -
  from Index_slice [OF assms]
  have "map lowerByte (take (length b) (drop idx c)) = map lowerByte b"
    by (simp add: asciiLower_def take_map drop_map)
  then have "lowerByte ` set (take (length b) (drop idx c)) = lowerByte ` set b"
    by (metis set_map)
  then have "CHR ''/'' \<in> lowerByte ` set (take (length b) (drop idx c)) \<longleftrightarrow>
      CHR ''/'' \<in> lowerByte ` set b" by simp
  then show ?thesis by (simp only: slash_image)
qed

lemma ToLower_ASCII_asciiLower: "isASCII s \<Longrightarrow> ToLower uL s = asciiLower s"
  by (simp add: ToLower_ASCII asciiLower_def)

lemma scanBadBots_agree_found:
  "ToLower uL c = asciiLower c \<Longrightarrow> \<forall>a\<in>set bots. ToLower uL a = asciiLower a \<Longrightarrow>
   specFirstBot bots c = Some b \<Longrightarrow> Index (asciiLower c) (asciiLower b) = Some idx \<Longrightarrow>
   scanBadBots uL bots c = Inr (b, specVersion (drop idx c), take (length b) (drop idx c))"
proof (induction bots)
  case Nil
  then show ?case by (simp add: specFirstBot_def)
next
  case (Cons a bots)
  from Cons.prems(2) have a: "ToLower uL a = asciiLower a" by simp
  show ?case
  proof (cases "Index (asciiLower c) (asciiLower a)")
    case None
    with Cons.prems(3) have "specFirstBot bots c = Some b"
      by (simp add: specFirstBot_def Contains_def)
    with Cons.IH Cons.prems
    have "scanBadBots uL bots c = Inr (b, specVersion (drop idx c), take (length b) (drop idx c))"
      by simp
    with None a Cons.prems(1) show ?thesis by simp
  next
    case (Some i)
    with Cons.prems(3) have ab: "a = b" by (simp add: specFirstBot_def Contains_def)
    with Some Cons.prems(4) have i: "i = idx" by simp
    from Index_bound [OF Cons.prems(4)] have "idx + length b \<le> length c"
      by (simp add: asciiLower_def)
    then have "\<not> length c < idx + length b" by simp
    with Some a ab i Cons.prems(1) show ?thesis by (simp add: Let_def version_of_parts)
  qed
qed

lemma scanBadBots_agree_not_found:
  "ToLower uL c = asciiLower c \<Longrightarrow> \<forall>a\<in>set bots. ToLower uL a = asciiLower a \<Longrightarrow>
   specFirstBot bots c = None \<Longrightarrow> scanBadBots uL bots c = Inr ('''', '''', '''')"
  by (induction bots) (auto simp: specFirstBot_def Contains_def split: if_splits)

lemma specPositional_None: "specPositional bots c = None \<longleftrightarrow> specFirstBot bots c = None"
proof (cases "specFirstBot bots c")
  case None
  then show ?thesis by (simp add: specPositional_def)
next
  case (Some b)
  then have "Contains (asciiLower c) (asciiLower b)"
    by (auto simp: specFirstBot_def dest: find_SomeD)
  with Some show ?thesis by (auto simp: specPositional_def Contains_def)
qed

text \<open>
  Where the library lower-cases the field and the identifiers as ASCII lower-casing does
  (as on every ASCII text) and no identifier contains a slash, the scan of \<open>checkBot\<close>
  reports what the specification describes: no identifier when the positional match has
  none, and otherwise the identifier found first, with the name and the version of the
  positional match.
\<close>

lemma positional_match_on_ascii_text:
  assumes "ToLower uL c = asciiLower c" and "\<forall>a\<in>set bots. ToLower uL a = asciiLower a"
    and "\<forall>a\<in>set bots. CHR ''/'' \<notin> set a"
  shows "(specPositional bots c = None \<longrightarrow> scanBadBots uL bots c = Inr ('''', '''', '''')) \<and>
         (\<forall>nm ver. specPositional bots c = Some (nm, ver) \<longrightarrow>
            (\<exists>b. specFirstBot bots c = Some b \<and> length nm = length b \<and>
                 scanBadBots uL bots c = Inr (b, ver, nm)))"
proof (intro conjI impI allI)
  assume "specPositional bots c = None"
  then have "specFirstBot bots c = None" by (simp add: specPositional_None)
  from scanBadBots_agree_not_found [OF assms(1,2) this]
  show "scanBadBots uL bots c = Inr ('''', '''', '''')" .
next
  fix nm ver
  assume s: "specPositional bots c = Some (nm, ver)"
  then obtain b idx where b: "specFirstBot bots c = Some b"
    and idx: "Index (asciiLower c) (asciiLower b) = Some idx"
    and nm: "nm = take (length b) (drop idx c)"
    and ver: "ver = specVersion (drop (idx + length b) c)"
    by (auto simp: specPositional_def split: option.splits)
  from b have "b \<in> set bots" by (auto simp: specFirstBot_def dest: find_SomeD)
  with assms(3) have "CHR ''/'' \<notin> set b" by simp
  with slash_in_match [OF idx] have ns: "CHR ''/'' \<notin> set (take (length b) (drop idx c))"
    by simp
  have "drop idx c = take (length b) (drop idx c) @ drop (idx + length b) c"
    by (metis append_take_drop_id drop_drop add.commute)
  then have v: "specVersion (drop idx c) = ver"
    using specVersion_skip [OF ns, of "drop (idx + length b) c"] ver by simp
  from Index_bound [OF idx] have "idx + length b \<le> length c" by (simp add: asciiLower_def)
  with nm have l: "length nm = length b" by simp
  from scanBadBots_agree_found [OF assms(1,2) b idx] v nm
  have "scanBadBots uL bots c = Inr (b, ver, nm)" by simp
  with b l show "\<exists>b. specFirstBot bots c = Some b \<and> length nm = length b \<and>
      scanBadBots uL bots c = Inr (b, ver, nm)" by blast
qed

lemma isASCII_literals:
  "isASCII ''GPTBot/1.1''" "isASCII ''gptbot''" "isASCII ''xbot/1.2.3;foo''" "isASCII ''xbot''"
  by (simp_all add: isASCII_def)

text \<open>
  The two examples of the claim C3, for every lower-casing of the text that is not ASCII:
  the identifier \<open>gptbot\<close> in the field \<open>GPTBot/1.1\<close> gives the name \<open>GPTBot\<close> and the version
  \<open>1.1\<close>, and the identifier \<open>xbot\<close> in the field \<open>xbot/1.2.3;foo\<close> gives the version \<open>1.2.3\<close>.
\<close>

lemma positional_match_examples:
  "specPositional [''gptbot''] ''GPTBot/1.1'' = Some (''GPTBot'', ''1.1'')"
  "scanBadBots uL [''gptbot''] ''GPTBot/1.1'' = Inr (''gptbot'', ''1.1'', ''GPTBot'')"
  "specPositional [''xbot''] ''xbot/1.2.3;foo'' = Some (''xbot'', ''1.2.3'')"
  "scanBadBots uL [''xbot''] ''xbot/1.2.3;foo'' = Inr (''xbot'', ''1.2.3'', ''xbot'')"
proof -
  show 1: "specPositional [''gptbot''] ''GPTBot/1.1'' = Some (''GPTBot'', ''1.1'')"
    by code_simp
  show 2: "specPositional [''xbot''] ''xbot/1.2.3;foo'' = Some (''xbot'', ''1.2.3'')"
    by code_simp
  from positional_match_on_ascii_text [of uL "''GPTBot/1.1''" "[''gptbot'']"] 1
  show "scanBadBots uL [''gptbot''] ''GPTBot/1.1'' = Inr (''gptbot'', ''1.1'', ''GPTBot'')"
    by (auto simp: ToLower_ASCII_asciiLower isASCII_literals specFirstBot_def
        split: if_splits)
  from positional_match_on_ascii_text [of uL "''xbot/1.2.3;foo''" "[''xbot'']"] 2
  show "scanBadBots uL [''xbot''] ''xbot/1.2.3;foo'' = Inr (''xbot'', ''1.2.3'', ''xbot'')"
    by (auto simp: ToLower_ASCII_asciiLower isASCII_literals specFirstBot_def
        split: if_splits)
qed

text \<open>
  C3 (the code departs from the claim): the claim takes the position of the identifier
  from the ASCII lower-cased field, returns the text of the field at that position as the
  name, and reads the version from the text right after the match. The scan of \<open>checkBot\<close>
  takes the position from the field as \<open>strings.ToLower\<close> lower-cases it and cuts the field
  itself there, and it reads the version from the text that starts at the match.

  The field made of the Kelvin sign and \<open>GPTBot/1.1\<close>, with the identifier \<open>gptbot\<close>: the
  lower-cased field is \<open>kgptbot/1.1\<close>, two bytes shorter, the identifier is found at offset
  1, and the name that the scan returns is the six bytes of the field from offset 1, the
  last two bytes of the Kelvin sign and \<open>GPTB\<close>; the claim gives the name \<open>GPTBot\<close>.

  The field made of the letter U+023A and \<open>bot\<close>, with the identifier \<open>bot\<close>: the lower-cased
  field is one byte longer, the identifier is found at offset 3, the field has five bytes
  and the slice up to offset 6 panics; the claim gives the name \<open>bot\<close> and no version.

  The field \<open>a/b/1.0\<close> with the identifier \<open>a/b\<close>: the scan splits at the slash inside the
  match and returns the version \<open>b/1.0\<close>; the claim gives the version \<open>1.0\<close>.
\<close>

theorem positional_match_failing_inputs:
  "ToLower unicodeLowerSample kelvinField = ''kgptbot/1.1'' \<and>
   specPositional [''gptbot''] kelvinField = Some (''GPTBot'', ''1.1'') \<and>
   scanBadBots unicodeLowerSample [''gptbot''] kelvinField =
     Inr (''gptbot'', ''1.1'', [CHR 0x84, CHR 0xAA, CHR ''G'', CHR ''P'', CHR ''T'', CHR ''B'']) \<and>
   checkComments unicodeLowerSample [''gptbot''] exampleAgent [kelvinField] =
     Inr (Some (setSimple [CHR 0x84, CHR 0xAA, CHR ''G'', CHR ''P'', CHR ''T'', CHR ''B'']
                  ''1.1'' True exampleAgent)) \<and>
   ToLower unicodeLowerSample (strokeA @ ''bot'') = strokeALower @ ''bot'' \<and>
   specPositional [''bot''] (strokeA @ ''bot'') = Some (''bot'', '''') \<and>
   scanBadBots unicodeLowerSample [''bot''] (strokeA @ ''bot'') = Inl SliceBoundsOutOfRange \<and>
   specPositional [''a/b''] ''a/b/1.0'' = Some (''a/b'', ''1.0'') \<and>
   scanBadBots unicodeLowerSample [''a/b''] ''a/b/1.0'' = Inr (''a/b'', ''b/1.0'', ''a/b'')"
proof -
  have 1: "ToLower unicodeLowerSample kelvinField = ''kgptbot/1.1''" by code_simp
  have 2: "specPositional [''gptbot''] kelvinField = Some (''GPTBot'', ''1.1'')" by code_simp
  have 3: "scanBadBots unicodeLowerSample [''gptbot''] kelvinField =
     Inr (''gptbot'', ''1.1'', [CHR 0x84, CHR 0xAA, CHR ''G'', CHR ''P'', CHR ''T'', CHR ''B''])"
    by code_simp
  from 3 have 4: "checkComments unicodeLowerSample [''gptbot''] exampleAgent [kelvinField] =
     Inr (Some (setSimple [CHR 0x84, CHR 0xAA, CHR ''G'', CHR ''P'', CHR ''T'', CHR ''B'']
                  ''1.1'' True exampleAgent))"
    by simp
  have 5: "ToLower unicodeLowerSample (strokeA @ ''bot'') = strokeALower @ ''bot''"
    by code_simp
  have 6: "specPositional [''bot''] (strokeA @ ''bot'') = Some (''bot'', '''')" by code_simp
  have 7: "scanBadBots unicodeLowerSample [''bot''] (strokeA @ ''bot'') =
     Inl SliceBoundsOutOfRange" by code_simp
  have 8: "specPositional [''a/b''] ''a/b/1.0'' = Some (''a/b'', ''1.0'')" by code_simp
  have 9: "scanBadBots unicodeLowerSample [''a/b''] ''a/b/1.0'' =
     Inr (''a/b'', ''b/1.0'', ''a/b'')" by code_simp
  from 1 2 3 4 5 6 7 8 9 show ?thesis by (simp only: simp_thms)
qed

section \<open>The order of the checks in the general case\<close>

lemma split_parts:
  "SplitN2 t ! 0 = takeWhile (\<lambda>ch. ch \<noteq> CHR ''/'') t \<and>
   (if length (SplitN2 t) = 2 then SplitN2 t ! 1 else '''') =
     (if CHR ''/'' \<in> set t then tl (dropWhile (\<lambda>ch. ch \<noteq> CHR ''/'') t) else '''')"
proof (cases "Index t ''/''")
  case None
  then have n: "CHR ''/'' \<notin> set t" by (simp add: Index_char_None)
  then have tw: "takeWhile (\<lambda>ch. ch \<noteq> CHR ''/'') t = t"
    by (auto simp: takeWhile_eq_all_conv)
  show ?thesis by (simp add: SplitN2_def None n tw)
next
  case (Some i)
  then have "CHR ''/'' \<in> set t" using Index_char_None [of t "CHR ''/''"] by auto
  with Index_char_Some [OF Some] Some show ?thesis by (simp add: SplitN2_def)
qed

lemma isKnownBadBot_agree:
  "ToLower uL s = asciiLower s \<Longrightarrow> \<forall>a\<in>set bots. ToLower uL a = asciiLower a \<Longrightarrow>
   isKnownBadBot uL bots s = specKnownBadBot bots s"
  by (induction bots) (auto simp: specKnownBadBot_def)

lemma checkComments_agree:
  assumes bots: "\<forall>a\<in>set bots. ToLower uL a = asciiLower a \<and> a \<noteq> '''' \<and> CHR ''/'' \<notin> set a"
  shows "\<forall>c\<in>set cs. ToLower uL c = asciiLower c \<Longrightarrow>
   checkComments uL bots p cs =
     Inr (case List.find (\<lambda>c. specPositional bots c \<noteq> None) cs of
            None \<Rightarrow> None
          | Some c \<Rightarrow>
              (case specPositional bots c of
                 None \<Rightarrow> None
               | Some (nm, ver) \<Rightarrow> Some (setSimple nm ver True p)))"
proof (induction cs)
  case Nil
  then show ?case by simp
next
  case (Cons c cs)
  from Cons.prems have c: "ToLower uL c = asciiLower c" by simp
  from bots have b1: "\<forall>a\<in>set bots. ToLower uL a = asciiLower a"
    and b2: "\<forall>a\<in>set bots. CHR ''/'' \<notin> set a" by simp_all
  note pm = positional_match_on_ascii_text [OF c b1 b2]
  show ?case
  proof (cases "specPositional bots c")
    case None
    with pm have "scanBadBots uL bots c = Inr ('''', '''', '''')" by simp
    with None Cons show ?thesis by simp
  next
    case (Some r)
    obtain nm ver where r: "r = (nm, ver)" by (cases r)
    with Some pm obtain b where b: "specFirstBot bots c = Some b" "length nm = length b"
      "scanBadBots uL bots c = Inr (b, ver, nm)" by blast
    from b(1) have "b \<in> set bots" by (auto simp: specFirstBot_def dest: find_SomeD)
    with bots have "b \<noteq> ''''" by simp
    with b(2) have "nm \<noteq> ''''" by auto
    with b(3) \<open>b \<noteq> ''''\<close> Some r show ?thesis by simp
  qed
qed

lemma specSectionVerdict_eq:
  "specSectionVerdict bots v =
     (case List.find (\<lambda>c. specPositional bots c \<noteq> None) (comment v) of
        Some c \<Rightarrow> specPositional bots c
      | None \<Rightarrow>
          if getFromSite (comment v) \<noteq> ''''
          then Some (SplitN2 (getFromSite (comment v)) ! 0,
                     if length (SplitN2 (getFromSite (comment v))) = 2
                     then SplitN2 (getFromSite (comment v)) ! 1 else '''')
          else if specKnownBadBot bots (name v) then Some (name v, version v) else None)"
proof -
  from split_parts [of "getFromSite (comment v)"]
  have a: "SplitN2 (getFromSite (comment v)) ! 0 =
      takeWhile (\<lambda>ch. ch \<noteq> CHR ''/'') (getFromSite (comment v))"
    and b: "(if length (SplitN2 (getFromSite (comment v))) = 2
       then SplitN2 (getFromSite (comment v)) ! 1 else '''') =
      (if CHR ''/'' \<in> set (getFromSite (comment v))
       then tl (dropWhile (\<lambda>ch. ch \<noteq> CHR ''/'') (getFromSite (comment v))) else '''')"
    by simp_all
  show ?thesis
    unfolding specSectionVerdict_def specSiteMatch_def specNameMatch_def a b
    by (simp split: option.splits)
qed

lemma find_Some_not_None:
  "List.find (\<lambda>c. f c \<noteq> None) cs = Some c \<Longrightarrow> \<exists>y. f c = Some y"
  by (induction cs) (auto split: if_splits)

lemma checkSections_agree:
  assumes bots: "\<forall>a\<in>set bots. ToLower uL a = asciiLower a \<and> a \<noteq> '''' \<and> CHR ''/'' \<notin> set a"
  shows "\<forall>v\<in>set vs. ToLower uL (name v) = asciiLower (name v) \<and>
            (\<forall>c\<in>set (comment v). ToLower uL c = asciiLower c) \<Longrightarrow>
   checkSections uL bots p vs = Inr (specGeneralCase bots p vs)"
proof (induction vs)
  case Nil
  then show ?case by (simp add: specGeneralCase_def)
next
  case (Cons v vs)
  from Cons.prems have n: "ToLower uL (name v) = asciiLower (name v)"
    and cs: "\<forall>c\<in>set (comment v). ToLower uL c = asciiLower c" by simp_all
  from Cons have ih: "checkSections uL bots p vs = Inr (specGeneralCase bots p vs)" by simp
  from bots have b1: "\<forall>a\<in>set bots. ToLower uL a = asciiLower a" by simp
  note k = isKnownBadBot_agree [OF n b1]
  note cc = checkComments_agree [OF bots cs, of p]
  note sv = specSectionVerdict_eq [of bots v]
  show ?case
  proof (cases "List.find (\<lambda>c. specPositional bots c \<noteq> None) (comment v)")
    case (Some c)
    from find_Some_not_None [OF Some] obtain nm ver where
      fm: "specPositional bots c = Some (nm, ver)" by auto
    with cc Some have "checkComments uL bots p (comment v) = Inr (Some (setSimple nm ver True p))"
      by simp
    then have "checkSections uL bots p (v # vs) = Inr (True, setSimple nm ver True p)" by simp
    moreover from sv Some fm have "specSectionVerdict bots v = Some (nm, ver)" by simp
    ultimately show ?thesis by (simp add: specGeneralCase_def)
  next
    case None
    with cc have q: "checkComments uL bots p (comment v) = Inr None" by simp
    show ?thesis
    proof (cases "specSectionVerdict bots v")
      case (Some y)
      obtain nm ver where y: "y = (nm, ver)" by (cases y)
      from Some y sv None q k
      have "checkSections uL bots p (v # vs) = Inr (True, setSimple nm ver True p)"
        by (auto simp: Let_def split: if_splits)
      with Some y show ?thesis by (simp add: specGeneralCase_def)
    next
      case n: None
      with sv None have "getFromSite (comment v) = ''''" "\<not> specKnownBadBot bots (name v)"
        by (auto split: if_splits)
      with q k ih have "checkSections uL bots p (v # vs) = Inr (specGeneralCase bots p vs)"
        by simp
      with n show ?thesis by (simp add: specGeneralCase_def)
    qed
  qed
qed

text \<open>
  On the general path, for identifiers that are not empty and contain no slash, and where
  the library lower-cases the identifiers, the names of the sections and the comment
  fields as ASCII lower-casing does (as on every ASCII text), \<open>checkBot\<close> returns, and it
  returns what the specification describes: the verdict of the first section that has
  one, which in a section is the positional match of the first comment field that has
  one, else the candidate of \<open>getFromSite\<close> split at its first slash, else the name and the
  version of the section when its name passes the plain containment check.
\<close>

lemma general_case_on_ascii_text:
  assumes "length sections \<noteq> 1 \<or> name (sections ! 0) = ''Mozilla''"
    and "\<forall>a\<in>set bots. ToLower uL a = asciiLower a \<and> a \<noteq> '''' \<and> CHR ''/'' \<notin> set a"
    and "\<forall>v\<in>set sections. ToLower uL (name v) = asciiLower (name v) \<and>
            (\<forall>c\<in>set (comment v). ToLower uL c = asciiLower c)"
  shows "checkBot uL bots p sections = Inr (specGeneralCase bots p sections)"
proof -
  from assms(1) have "checkBot uL bots p sections = checkSections uL bots p sections"
    by (auto simp: checkBot_def)
  with checkSections_agree [OF assms(2,3)] show ?thesis by simp
qed

lemma general_case_example:
  "checkBot uL [''gptbot''] p [mozillaSection] = Inr (True, setSimple ''GPTBot'' ''1.0'' True p)"
proof -
  have a: "isASCII ''gptbot''" "isASCII ''Mozilla''" "isASCII ''compatible''"
    "isASCII ''GPTBot/1.0''" "isASCII '';+https://openai.com/gptbot''"
    by (simp_all add: isASCII_def)
  have 1: "specPositional [''gptbot''] ''compatible'' = None" by code_simp
  have 2: "specPositional [''gptbot''] ''GPTBot/1.0'' = Some (''GPTBot'', ''1.0'')"
    by code_simp
  from 1 2 have "specGeneralCase [''gptbot''] p [mozillaSection] =
      (True, setSimple ''GPTBot'' ''1.0'' True p)"
    by (simp add: specGeneralCase_def specSectionVerdict_def mozillaSection_def)
  moreover have "checkBot uL [''gptbot''] p [mozillaSection] =
      Inr (specGeneralCase [''gptbot''] p [mozillaSection])"
    by (rule general_case_on_ascii_text)
      (simp_all add: mozillaSection_def ToLower_ASCII_asciiLower a)
  ultimately show ?thesis by simp
qed

text \<open>
  C4 (the code departs from the claim): the claim has \<open>checkBot\<close>, on the general path,
  return true at the first comment field that matches. The section \<open>strokeSection\<close> is named
  \<open>Mozilla\<close>, so it is on the general path. With the identifier \<open>bot\<close>, its first field
  \<open>compatible\<close> has no match and its second field, the letter U+023A and \<open>bot\<close>, has the
  positional match with the name \<open>bot\<close>; the specification returns true with that name.
  The lower-cased second field is one byte longer than the field, the slice of the field
  is out of range, and \<open>checkBot\<close> panics instead of returning.
\<close>

theorem general_case_failing_input:
  "length [strokeSection] = 1 \<and> name ([strokeSection] ! 0) = ''Mozilla'' \<and>
   comment strokeSection = [''compatible'', strokeA @ ''bot''] \<and>
   specPositional [''bot''] ''compatible'' = None \<and>
   specPositional [''bot''] (strokeA @ ''bot'') = Some (''bot'', '''') \<and>
   specGeneralCase [''bot''] exampleAgent [strokeSection] =
     (True, setSimple ''bot'' '''' True exampleAgent) \<and>
   scanBadBots unicodeLowerSample [''bot''] ''compatible'' = Inr ('''', '''', '''') \<and>
   scanBadBots unicodeLowerSample [''bot''] (strokeA @ ''bot'') = Inl SliceBoundsOutOfRange \<and>
   checkBot unicodeLowerSample [''bot''] exampleAgent [strokeSection] =
     Inl SliceBoundsOutOfRange"
proof -
  have 1: "specPositional [''bot''] ''compatible'' = None" by code_simp
  have 2: "specPositional [''bot''] (strokeA @ ''bot'') = Some (''bot'', '''')" by code_simp
  from 1 2 have 3: "specGeneralCase [''bot''] exampleAgent [strokeSection] =
     (True, setSimple ''bot'' '''' True exampleAgent)"
    by (simp add: specGeneralCase_def specSectionVerdict_def strokeSection_def)
  have 4: "scanBadBots unicodeLowerSample [''bot''] ''compatible'' = Inr ('''', '''', '''')"
    by code_simp
  have 5: "scanBadBots unicodeLowerSample [''bot''] (strokeA @ ''bot'') =
     Inl SliceBoundsOutOfRange" by code_simp
  from 4 5 have 6: "checkBot unicodeLowerSample [''bot''] exampleAgent [strokeSection] =
     Inl SliceBoundsOutOfRange"
    by (simp add: checkBot_def strokeSection_def del: scanBadBots.simps)
  have 7: "length [strokeSection] = 1 \<and> name ([strokeSection] ! 0) = ''Mozilla'' \<and>
     comment strokeSection = [''compatible'', strokeA @ ''bot'']"
    by (simp add: strokeSection_def)
  from 1 2 3 4 5 6 7 show ?thesis by (simp only: simp_thms)
qed

end
